theory Spec2Isabelle
  imports Complex_Main "HOL-Library.Log_Nat"
begin

section \<open>Speech graph analysis: the model\<close>

text \<open>
  The development follows \<^verbatim>\<open>speech-graph-service/app/graph_analyzer.py\<close>, class
  \<^verbatim>\<open>SpeechGraphAnalyzer\<close>. Every method is a function of the same name. The methods
  of the graph library the class calls on its \<^verbatim>\<open>DiGraph\<close> are functions named after
  them, written from the library's documented behaviour.
\<close>

subsection \<open>Numbers\<close>

text \<open>
  Counts are natural numbers. A Python float is the rational number it denotes. The
  quotient \<^verbatim>\<open>a / b\<close> of Python is the binary64 number nearest to the exact quotient,
  ties going to the even significand; so is the sum of two floats. \<open>round_double\<close> is
  that rounding. \<open>float_exponent q\<close> is the exponent \<open>e\<close> of a positive \<open>q\<close>, with
  \<open>2 powi e \<le> q < 2 powi (e + 1)\<close>; \<open>float_ulp q\<close> is the distance of the doubles
  around \<open>q\<close>: 53 significant bits, the smallest exponent \<open>-1022\<close> (below it the
  distance stays \<open>2 powi -1074\<close>). The exponent is not bounded above: a quotient of this
  program would need a list of more than \<open>2 ^ 1000\<close> words to reach the largest double.
\<close>

definition float_exponent :: "rat \<Rightarrow> int" where
  "float_exponent q =
     (let (a, b) = quotient_of q;
          e = bitlen a - bitlen b
      in if 2 powi e \<le> q then e else e - 1)"

definition round_half_even :: "rat \<Rightarrow> int" where
  "round_half_even x =
     (let f = \<lfloor>x\<rfloor>; r = x - of_int f
      in if r < 1 / 2 then f
         else if 1 / 2 < r then f + 1
         else if even f then f else f + 1)"

definition float_ulp :: "rat \<Rightarrow> rat" where
  "float_ulp q = 2 powi (max (float_exponent q) (- 1022) - 52)"

definition round_double :: "rat \<Rightarrow> rat" where
  "round_double q =
     (if q = 0 then 0
      else sgn q * (of_int (round_half_even (\<bar>q\<bar> / float_ulp \<bar>q\<bar>)) * float_ulp \<bar>q\<bar>))"

text \<open>
  \<^verbatim>\<open>a / b\<close> on two integers. Every call in the class is guarded against \<open>b = 0\<close>,
  where Python raises.
\<close>

definition py_truediv :: "int \<Rightarrow> int \<Rightarrow> rat" where
  "py_truediv a b = round_double (of_int a / of_int b)"

definition float_add :: "rat \<Rightarrow> rat \<Rightarrow> rat" where
  "float_add x y = round_double (x + y)"

subsection \<open>Tokenizer\<close>

text \<open>
  A character is a code point below 256. The classes are those of Python on these code
  points: \<^verbatim>\<open>str.lower\<close>, the \<^verbatim>\<open>\w\<close> and \<^verbatim>\<open>\s\<close> of \<^verbatim>\<open>re\<close> on \<^verbatim>\<open>str\<close>,
  the separators of \<^verbatim>\<open>str.split()\<close> and \<^verbatim>\<open>str.isdigit\<close>.
\<close>

definition char_lower :: "char \<Rightarrow> char" where
  "char_lower c =
     (let n = (of_char c :: nat)
      in if (65 \<le> n \<and> n \<le> 90) \<or> (192 \<le> n \<and> n \<le> 222 \<and> n \<noteq> 215)
         then char_of (n + 32) else c)"

definition is_word_char :: "char \<Rightarrow> bool" where
  "is_word_char c =
     (let n = (of_char c :: nat)
      in (48 \<le> n \<and> n \<le> 57) \<or> (65 \<le> n \<and> n \<le> 90) \<or> n = 95 \<or> (97 \<le> n \<and> n \<le> 122)
         \<or> n = 170 \<or> n = 178 \<or> n = 179 \<or> n = 181 \<or> n = 185 \<or> n = 186
         \<or> (188 \<le> n \<and> n \<le> 190) \<or> (192 \<le> n \<and> n \<le> 214)
         \<or> (216 \<le> n \<and> n \<le> 246) \<or> (248 \<le> n \<and> n \<le> 255))"

definition is_space_char :: "char \<Rightarrow> bool" where
  "is_space_char c =
     (let n = (of_char c :: nat)
      in (9 \<le> n \<and> n \<le> 13) \<or> (28 \<le> n \<and> n \<le> 32) \<or> n = 133 \<or> n = 160)"

definition is_digit_char :: "char \<Rightarrow> bool" where
  "is_digit_char c =
     (let n = (of_char c :: nat)
      in (48 \<le> n \<and> n \<le> 57) \<or> n = 178 \<or> n = 179 \<or> n = 185)"

definition lower :: "string \<Rightarrow> string" where
  "lower s = map char_lower s"

text \<open>\<^verbatim>\<open>re.sub(r"[^\w\s']", '', text)\<close>: the apostrophe is code point 39.\<close>

definition re_sub_punct :: "string \<Rightarrow> string" where
  "re_sub_punct s = filter (\<lambda>c. is_word_char c \<or> is_space_char c \<or> of_char c = (39::nat)) s"

text \<open>\<^verbatim>\<open>str.split()\<close>: the maximal runs of characters that are not white space.\<close>

fun split_ws :: "string \<Rightarrow> string \<Rightarrow> string list" where
  "split_ws cur [] = (if cur = [] then [] else [cur])"
| "split_ws cur (c # cs) =
     (if is_space_char c
      then (if cur = [] then split_ws [] cs else cur # split_ws [] cs)
      else split_ws (cur @ [c]) cs)"

definition split :: "string \<Rightarrow> string list" where
  "split s = split_ws [] s"

definition isdigit :: "string \<Rightarrow> bool" where
  "isdigit w = (w \<noteq> [] \<and> list_all is_digit_char w)"

definition preprocess_text :: "string \<Rightarrow> string list" where
  "preprocess_text text =
     (let text1 = lower text;
          text2 = re_sub_punct text1;
          words = split text2
      in filter (\<lambda>w. 1 < length w \<and> \<not> isdigit w) words)"

subsection \<open>The directed graph\<close>

text \<open>
  A \<^verbatim>\<open>DiGraph\<close> keeps its nodes in insertion order and, for every node, its
  successors in insertion order, each edge with its attribute \<^verbatim>\<open>weight\<close>. Here the
  edges are one list in insertion order; the successors of a node are the edges of the
  list that leave it, in that order.
\<close>

record 'a digraph =
  g_nodes :: "'a list"
  g_edges :: "(('a \<times> 'a) \<times> nat) list"

definition empty_graph :: "'a digraph" where
  "empty_graph = \<lparr>g_nodes = [], g_edges = []\<rparr>"

definition has_edge :: "'a digraph \<Rightarrow> 'a \<Rightarrow> 'a \<Rightarrow> bool" where
  "has_edge G u v = ((u, v) \<in> set (map fst (g_edges G)))"

definition add_node :: "'a digraph \<Rightarrow> 'a \<Rightarrow> 'a digraph" where
  "add_node G u = (if u \<in> set (g_nodes G) then G else G\<lparr>g_nodes := g_nodes G @ [u]\<rparr>)"

text \<open>
  \<^verbatim>\<open>G.add_edge(u, v, weight=w)\<close> adds the nodes \<open>u\<close> and \<open>v\<close> that are missing, in
  this order, then stores the edge; on an edge that is there already it overwrites the
  weight.
\<close>

definition add_edge :: "'a digraph \<Rightarrow> 'a \<Rightarrow> 'a \<Rightarrow> nat \<Rightarrow> 'a digraph" where
  "add_edge G u v w =
     (let G1 = add_node (add_node G u) v
      in if has_edge G1 u v
         then G1\<lparr>g_edges := map (\<lambda>e. if fst e = (u, v) then ((u, v), w) else e) (g_edges G1)\<rparr>
         else G1\<lparr>g_edges := g_edges G1 @ [((u, v), w)]\<rparr>)"

text \<open>\<^verbatim>\<open>G[u][v]['weight'] += 1\<close>\<close>

definition incr_weight :: "'a digraph \<Rightarrow> 'a \<Rightarrow> 'a \<Rightarrow> 'a digraph" where
  "incr_weight G u v =
     G\<lparr>g_edges := map (\<lambda>e. if fst e = (u, v) then ((u, v), snd e + 1) else e) (g_edges G)\<rparr>"

definition number_of_nodes :: "'a digraph \<Rightarrow> nat" where
  "number_of_nodes G = length (g_nodes G)"

definition number_of_edges :: "'a digraph \<Rightarrow> nat" where
  "number_of_edges G = length (g_edges G)"

text \<open>\<^verbatim>\<open>G.edges(data=True)\<close>: node by node, the edges that leave the node.\<close>

definition edges_view :: "'a digraph \<Rightarrow> (('a \<times> 'a) \<times> nat) list" where
  "edges_view G = concat (map (\<lambda>u. filter (\<lambda>e. fst (fst e) = u) (g_edges G)) (g_nodes G))"

definition nx_out_degree :: "'a digraph \<Rightarrow> 'a \<Rightarrow> nat" where
  "nx_out_degree G u = length (filter (\<lambda>e. fst (fst e) = u) (g_edges G))"

definition nx_in_degree :: "'a digraph \<Rightarrow> 'a \<Rightarrow> nat" where
  "nx_in_degree G u = length (filter (\<lambda>e. snd (fst e) = u) (g_edges G))"

text \<open>The degree of a node of a directed graph: a self-loop counts twice.\<close>

definition nx_degree :: "'a digraph \<Rightarrow> 'a \<Rightarrow> nat" where
  "nx_degree G u = nx_in_degree G u + nx_out_degree G u"

definition number_of_selfloops :: "'a digraph \<Rightarrow> nat" where
  "number_of_selfloops G = length (filter (\<lambda>e. fst (fst e) = snd (fst e)) (g_edges G))"

text \<open>
  \<^verbatim>\<open>nx.density(G)\<close> on a directed graph: \<^verbatim>\<open>0\<close> when there is no edge or at most one
  node, else \<^verbatim>\<open>m / (n * (n - 1))\<close>.
\<close>

definition nx_density :: "'a digraph \<Rightarrow> rat" where
  "nx_density G =
     (let n = number_of_nodes G; m = number_of_edges G
      in if m = 0 \<or> n \<le> 1 then 0 else py_truediv (int m) (int n * (int n - 1)))"

text \<open>
  \<^verbatim>\<open>nx.simple_cycles(G)\<close> yields every elementary cycle once. The cycles on two nodes
  are the edges \<open>u \<rightarrow> v\<close> with \<open>u \<noteq> v\<close> whose reverse is an edge, each cycle found from
  both of its edges; the cycles on three nodes are the paths \<open>u \<rightarrow> v \<rightarrow> w\<close> on distinct
  nodes closed by an edge \<open>w \<rightarrow> u\<close>, each cycle found from its three starting points.
\<close>

definition simple_cycles_2 :: "'a digraph \<Rightarrow> nat" where
  "simple_cycles_2 G =
     (let es = map fst (g_edges G)
      in length (filter (\<lambda>e. fst e \<noteq> snd e \<and> (snd e, fst e) \<in> set es) es) div 2)"

definition simple_cycles_3 :: "'a digraph \<Rightarrow> nat" where
  "simple_cycles_3 G =
     (let es = map fst (g_edges G)
      in length (filter (\<lambda>(e, f). snd e = fst f \<and> distinct [fst e, snd e, snd f]
                                   \<and> (snd f, fst e) \<in> set es)
                        (List.product es es)) div 3)"

subsection \<open>Components\<close>

text \<open>
  \<open>reach es vis\<close> extends the list \<open>vis\<close> by the targets of the edges that leave it,
  one new node at a time, until no edge leaves the list: the nodes that can be reached
  from \<open>vis\<close> along the edges \<open>es\<close>.
\<close>

function reach :: "('a \<times> 'a) list \<Rightarrow> 'a list \<Rightarrow> 'a list" where
  "reach es vis =
     (case filter (\<lambda>e. fst e \<in> set vis \<and> snd e \<notin> set vis) es of
        [] \<Rightarrow> vis
      | e # _ \<Rightarrow> reach es (vis @ [snd e]))"
  by pat_completeness auto
termination
proof (relation "measure (\<lambda>(es, vis). card (snd ` set es - set vis))")
  show "wf (measure (\<lambda>(es, vis). card (snd ` set es - set vis)))"
    by simp
next
  fix es :: "('a \<times> 'a) list" and vis :: "'a list" and e :: "'a \<times> 'a" and rest
  assume eq: "filter (\<lambda>e. fst e \<in> set vis \<and> snd e \<notin> set vis) es = e # rest"
  have "e \<in> set (filter (\<lambda>e. fst e \<in> set vis \<and> snd e \<notin> set vis) es)"
    by (simp add: eq)
  then have e: "e \<in> set es" "snd e \<notin> set vis"
    by auto
  then have "snd ` set es - set (vis @ [snd e]) \<subset> snd ` set es - set vis"
    by auto
  then have "card (snd ` set es - set (vis @ [snd e])) < card (snd ` set es - set vis)"
    by (intro psubset_card_mono) auto
  then show "((es, vis @ [snd e]), (es, vis)) \<in> measure (\<lambda>(es, vis). card (snd ` set es - set vis))"
    by simp
qed

declare reach.simps [simp del]

text \<open>
  A partition of the nodes into components: the component of the first node, then the
  components of the nodes outside it.
\<close>

fun components :: "('a \<Rightarrow> 'a list) \<Rightarrow> 'a list \<Rightarrow> 'a list list" where
  "components cf [] = []"
| "components cf (u # us) = cf u # components cf (filter (\<lambda>v. v \<notin> set (cf u)) us)"

text \<open>
  \<^verbatim>\<open>nx.strongly_connected_components(G)\<close>: two nodes are in one component when each
  reaches the other.
\<close>

definition descendants :: "'a digraph \<Rightarrow> 'a \<Rightarrow> 'a list" where
  "descendants G u = reach (map fst (g_edges G)) [u]"

definition scc_of :: "'a digraph \<Rightarrow> 'a \<Rightarrow> 'a list" where
  "scc_of G u = filter (\<lambda>v. u \<in> set (descendants G v)) (descendants G u)"

definition strongly_connected_components :: "'a digraph \<Rightarrow> 'a list list" where
  "strongly_connected_components G = components (scc_of G) (g_nodes G)"

text \<open>
  \<^verbatim>\<open>G.to_undirected()\<close> has the nodes of \<open>G\<close> and joins \<open>u\<close> and \<open>v\<close> when \<open>G\<close> has an
  edge between them in either direction: the adjacency of the undirected graph is the
  edges of \<open>G\<close> and their reverses. \<^verbatim>\<open>nx.connected_components\<close> collects, node by node,
  what a search from a node not seen so far reaches.
\<close>

definition to_undirected :: "'a digraph \<Rightarrow> 'a list \<times> ('a \<times> 'a) list" where
  "to_undirected G =
     (g_nodes G, map fst (g_edges G) @ map (\<lambda>e. (snd (fst e), fst (fst e))) (g_edges G))"

definition connected_components :: "'a list \<times> ('a \<times> 'a) list \<Rightarrow> 'a list list" where
  "connected_components U = components (\<lambda>u. reach (snd U) [u]) (fst U)"

text \<open>\<^verbatim>\<open>len(max(cs, key=len))\<close> on a list of components that is not empty.\<close>

definition max_len :: "'a list list \<Rightarrow> nat" where
  "max_len cs = foldr max (map length cs) 0"

subsection \<open>The analyzer\<close>

record analyzer =
  window_size :: int
  step_size :: int

text \<open>The defaults of the constructor, which the service passes as well.\<close>

definition default_analyzer :: analyzer where
  "default_analyzer = \<lparr>window_size = 30, step_size = 3\<rparr>"

text \<open>
  \<^verbatim>\<open>build_speech_graph\<close>: the loop runs over \<^verbatim>\<open>range(len(words) - 1)\<close>, that is over
  the pairs of a word and its successor; for the empty list and for a single word it
  does not run at all.
\<close>

definition build_step :: "'a digraph \<Rightarrow> 'a \<times> 'a \<Rightarrow> 'a digraph" where
  "build_step G p =
     (let source = fst p; target = snd p
      in if has_edge G source target
         then incr_weight G source target
         else add_edge G source target 1)"

definition build_speech_graph :: "'a list \<Rightarrow> 'a digraph" where
  "build_speech_graph words = foldl build_step empty_graph (zip words (tl words))"

record loop_counts =
  L1 :: nat
  L2 :: nat
  L3 :: nat

record metrics =
  nodes :: nat
  edges :: nat
  lsc :: nat
  lcc :: nat
  loops :: loop_counts
  parallel_edges :: nat
  density :: rat
  avg_degree :: rat

definition calculate_lsc :: "'a digraph \<Rightarrow> nat" where
  "calculate_lsc G =
     (if number_of_nodes G = 0 then 0
      else let strongly_connected = strongly_connected_components G
           in if strongly_connected = [] then 0 else max_len strongly_connected)"

definition calculate_lcc :: "'a digraph \<Rightarrow> nat" where
  "calculate_lcc G =
     (if number_of_nodes G = 0 then 0
      else let connected = connected_components (to_undirected G)
           in if connected = [] then 0 else max_len connected)"

text \<open>
  \<^verbatim>\<open>count_loops\<close>. The \<^verbatim>\<open>except\<close> branch, taken when the enumeration of the cycles
  exhausts the machine, is not part of the model.
\<close>

definition count_loops :: "'a digraph \<Rightarrow> loop_counts" where
  "count_loops G =
     \<lparr>L1 = number_of_selfloops G, L2 = simple_cycles_2 G, L3 = simple_cycles_3 G\<rparr>"

definition count_parallel_edges :: "'a digraph \<Rightarrow> nat" where
  "count_parallel_edges G = length (filter (\<lambda>e. 1 < snd e) (edges_view G))"

definition zero_metrics :: metrics where
  "zero_metrics =
     \<lparr>nodes = 0, edges = 0, lsc = 0, lcc = 0, loops = \<lparr>L1 = 0, L2 = 0, L3 = 0\<rparr>,
      parallel_edges = 0, density = 0, avg_degree = 0\<rparr>"

definition analyze_window :: "'a list \<Rightarrow> metrics" where
  "analyze_window words =
     (if words = [] then zero_metrics
      else let G = build_speech_graph words
           in \<lparr>nodes = number_of_nodes G,
               edges = number_of_edges G,
               lsc = calculate_lsc G,
               lcc = calculate_lcc G,
               loops = count_loops G,
               parallel_edges = count_parallel_edges G,
               density = (if 0 < number_of_nodes G then nx_density G else 0),
               avg_degree =
                 (if 0 < number_of_nodes G
                  then py_truediv (int (sum_list (map (nx_degree G) (g_nodes G))))
                         (int (number_of_nodes G))
                  else 0)\<rparr>)"

subsection \<open>Windows\<close>

text \<open>
  A window is the dictionary of \<^verbatim>\<open>analyze_window\<close>; the loop of
  \<^verbatim>\<open>sliding_window_analysis\<close> adds the keys \<^verbatim>\<open>window_start\<close> and \<^verbatim>\<open>window_end\<close> to it.
\<close>

record window = metrics +
  window_start :: "int option"
  window_end :: "int option"

definition as_window :: "metrics \<Rightarrow> window" where
  "as_window m = metrics.extend m \<lparr>window_start = None, window_end = None\<rparr>"

datatype error = ValueError

text \<open>\<^verbatim>\<open>range(start, stop, step)\<close> raises on the step \<^verbatim>\<open>0\<close>.\<close>

definition py_range :: "int \<Rightarrow> int \<Rightarrow> int \<Rightarrow> error + int list" where
  "py_range start stop step =
     (if step = 0 then Inl ValueError
      else if 0 < step
      then Inr (map (\<lambda>k. start + int k * step) [0..<nat ((stop - start + step - 1) div step)])
      else Inr (map (\<lambda>k. start + int k * step) [0..<nat ((start - stop - step - 1) div (- step))]))"

text \<open>\<^verbatim>\<open>xs[i:j]\<close>: a negative bound counts from the end, and both are clipped to the list.\<close>

definition py_slice :: "'a list \<Rightarrow> int \<Rightarrow> int \<Rightarrow> 'a list" where
  "py_slice xs i j =
     (let n = int (length xs);
          lo = (if i < 0 then max (i + n) 0 else min i n);
          hi = (if j < 0 then max (j + n) 0 else min j n)
      in take (nat (hi - lo)) (drop (nat lo) xs))"

definition sliding_window_analysis :: "analyzer \<Rightarrow> string \<Rightarrow> error + window list" where
  "sliding_window_analysis A text =
     (let words = preprocess_text text
      in if int (length words) < window_size A
         then Inr [as_window (analyze_window words)]
         else case py_range 0 (int (length words) - window_size A + 1) (step_size A) of
                Inl e \<Rightarrow> Inl e
              | Inr starts \<Rightarrow>
                  Inr (map (\<lambda>i. (as_window (analyze_window (py_slice words i (i + window_size A))))
                                   \<lparr>window_start := Some i,
                                    window_end := Some (i + window_size A)\<rparr>)
                           starts))"

subsection \<open>Visualization\<close>

record 'a viz_node =
  node_id :: nat
  word :: 'a
  degree :: nat
  in_degree :: nat
  out_degree :: nat

record viz_link =
  source :: nat
  target :: nat
  weight :: nat

record 'a visualization =
  viz_nodes :: "'a viz_node list"
  viz_links :: "viz_link list"

text \<open>
  \<^verbatim>\<open>node_to_index[u]\<close>: the position of \<open>u\<close> among the nodes. Both ends of an edge are
  nodes of the graph, so the lookup finds them.
\<close>

fun node_to_index :: "'a list \<Rightarrow> 'a \<Rightarrow> nat" where
  "node_to_index [] u = 0"
| "node_to_index (v # vs) u = (if u = v then 0 else Suc (node_to_index vs u))"

definition generate_visualization_data :: "'a list \<Rightarrow> 'a visualization" where
  "generate_visualization_data words =
     (let G = build_speech_graph words
      in \<lparr>viz_nodes =
            map (\<lambda>(node, idx).
                   \<lparr>node_id = idx, word = node, degree = nx_degree G node,
                    in_degree = nx_in_degree G node, out_degree = nx_out_degree G node\<rparr>)
                (zip (g_nodes G) [0..<length (g_nodes G)]),
          viz_links =
            map (\<lambda>e. \<lparr>source = node_to_index (g_nodes G) (fst (fst e)),
                       target = node_to_index (g_nodes G) (snd (fst e)),
                       weight = snd e\<rparr>)
                (edges_view G)\<rparr>)"

subsection \<open>Aggregation\<close>

text \<open>
  \<^verbatim>\<open>sum(values)\<close> adds from the left, starting at \<^verbatim>\<open>0\<close>: exactly on integers, with
  one rounding for each float. \<^verbatim>\<open>min\<close> and \<^verbatim>\<open>max\<close> are called on lists that are not
  empty.
\<close>

definition float_sum :: "rat list \<Rightarrow> rat" where
  "float_sum values = foldl float_add 0 values"

definition py_min :: "'a::{linorder,zero} list \<Rightarrow> 'a" where
  "py_min values = (case values of [] \<Rightarrow> 0 | v # vs \<Rightarrow> foldl min v vs)"

definition py_max :: "'a::{linorder,zero} list \<Rightarrow> 'a" where
  "py_max values = (case values of [] \<Rightarrow> 0 | v # vs \<Rightarrow> foldl max v vs)"

text \<open>The three entries of an integer field and of a float field.\<close>

definition aggregate_int :: "string \<Rightarrow> nat list \<Rightarrow> (string \<times> rat) list" where
  "aggregate_int key values =
     [(''avg_'' @ key,
         if values \<noteq> [] then py_truediv (int (sum_list values)) (int (length values)) else 0),
      (''min_'' @ key, if values \<noteq> [] then of_nat (py_min values) else 0),
      (''max_'' @ key, if values \<noteq> [] then of_nat (py_max values) else 0)]"

definition aggregate_float :: "string \<Rightarrow> rat list \<Rightarrow> (string \<times> rat) list" where
  "aggregate_float key values =
     [(''avg_'' @ key,
         if values \<noteq> [] then round_double (float_sum values / of_nat (length values)) else 0),
      (''min_'' @ key, if values \<noteq> [] then py_min values else 0),
      (''max_'' @ key, if values \<noteq> [] then py_max values else 0)]"

text \<open>
  \<^verbatim>\<open>_aggregate_window_metrics\<close>. Every window has the six keys, so the filter
  \<^verbatim>\<open>if key in w\<close> keeps every window. The dictionary is the list of its items in
  insertion order.
\<close>

definition aggregate_window_metrics :: "window list \<Rightarrow> (string \<times> rat) list" where
  "aggregate_window_metrics windows =
     (if windows = [] then []
      else aggregate_int ''nodes'' (map nodes windows)
         @ aggregate_int ''edges'' (map edges windows)
         @ aggregate_int ''lsc'' (map lsc windows)
         @ aggregate_int ''lcc'' (map lcc windows)
         @ aggregate_float ''density'' (map density windows)
         @ aggregate_float ''avg_degree'' (map avg_degree windows))"

subsection \<open>The full transcript\<close>

record analysis_result =
  full_metrics :: metrics
  window_metrics :: "window list"
  aggregated_metrics :: "(string \<times> rat) list"
  visualization :: "string visualization"
  word_count :: nat
  unique_words :: nat
  lexical_diversity :: rat

definition zero_result :: analysis_result where
  "zero_result =
     \<lparr>full_metrics =
        \<lparr>nodes = 0, edges = 0, lsc = 0, lcc = 0, loops = \<lparr>L1 = 0, L2 = 0, L3 = 0\<rparr>,
         parallel_edges = 0, density = 0, avg_degree = 0\<rparr>,
      window_metrics = [],
      aggregated_metrics = [],
      visualization = \<lparr>viz_nodes = [], viz_links = []\<rparr>,
      word_count = 0,
      unique_words = 0,
      lexical_diversity = 0\<rparr>"

definition analyze_full_transcript :: "analyzer \<Rightarrow> string \<Rightarrow> error + analysis_result" where
  "analyze_full_transcript A text =
     (let words = preprocess_text text
      in if words = [] then Inr zero_result
         else let full_graph = build_speech_graph words;
                  full = analyze_window words
              in case (if window_size A \<le> int (length words)
                       then sliding_window_analysis A text else Inr []) of
                   Inl e \<Rightarrow> Inl e
                 | Inr wins \<Rightarrow>
                     Inr \<lparr>full_metrics = full,
                          window_metrics = wins,
                          aggregated_metrics = aggregate_window_metrics wins,
                          visualization = generate_visualization_data words,
                          word_count = length words,
                          unique_words = number_of_nodes full_graph,
                          lexical_diversity =
                            (if 0 < length words
                             then py_truediv (int (number_of_nodes full_graph))
                                    (int (length words))
                             else 0)\<rparr>)"

subsection \<open>The invariant of the graph\<close>

text \<open>
  What the library keeps true of every \<^verbatim>\<open>DiGraph\<close>: no node and no edge is stored
  twice, and both ends of every edge are nodes.
\<close>

definition digraph_inv :: "'a digraph \<Rightarrow> bool" where
  "digraph_inv G =
     (distinct (g_nodes G) \<and> distinct (map fst (g_edges G)) \<and>
      list_all (\<lambda>e. fst (fst e) \<in> set (g_nodes G) \<and> snd (fst e) \<in> set (g_nodes G)) (g_edges G))"

subsection \<open>A sample transcript\<close>

text \<open>The word \<open>ab\<close> 29 times: one word fewer than the default window.\<close>

definition text29 :: string where
  "text29 = concat (replicate 29 ''ab '')"

section \<open>Properties\<close>

subsection \<open>The graph of a word list\<close>

lemma add_node_nodes: "set (g_nodes (add_node G u)) = insert u (set (g_nodes G))"
  by (auto simp: add_node_def)

lemma add_node_edges: "g_edges (add_node G u) = g_edges G"
  by (simp add: add_node_def)

lemma add_node_distinct: "distinct (g_nodes G) \<Longrightarrow> distinct (g_nodes (add_node G u))"
  by (simp add: add_node_def)

lemma map_fst_reweigh: "map fst (map (\<lambda>e. if fst e = k then (k, f e) else e) es) = map fst es"
  by (induction es) auto

lemma incr_weight_keys: "map fst (g_edges (incr_weight G u v)) = map fst (g_edges G)"
  unfolding incr_weight_def using map_fst_reweigh [of "(u, v)" "\<lambda>e. snd e + 1" "g_edges G"]
  by simp

lemma incr_weight_nodes: "g_nodes (incr_weight G u v) = g_nodes G"
  by (simp add: incr_weight_def)

lemma add_edge_nodes: "set (g_nodes (add_edge G u v w)) = insert u (insert v (set (g_nodes G)))"
  by (auto simp: add_edge_def Let_def add_node_nodes)

lemma add_edge_distinct: "distinct (g_nodes G) \<Longrightarrow> distinct (g_nodes (add_edge G u v w))"
  by (auto simp: add_edge_def Let_def add_node_distinct)

lemma add_edge_keys:
  "\<not> has_edge G u v \<Longrightarrow> map fst (g_edges (add_edge G u v w)) = map fst (g_edges G) @ [(u, v)]"
  by (simp add: add_edge_def Let_def has_edge_def add_node_edges)

lemma build_step_nodes:
  "set (g_nodes (build_step G p)) =
     (if has_edge G (fst p) (snd p) then set (g_nodes G)
      else insert (fst p) (insert (snd p) (set (g_nodes G))))"
  by (simp add: build_step_def Let_def incr_weight_nodes add_edge_nodes)

lemma build_step_keys:
  "map fst (g_edges (build_step G p)) =
     (if has_edge G (fst p) (snd p) then map fst (g_edges G) else map fst (g_edges G) @ [p])"
  by (simp add: build_step_def Let_def incr_weight_keys add_edge_keys)

lemma build_step_inv:
  assumes "digraph_inv G"
  shows "digraph_inv (build_step G p)"
proof -
  have d: "distinct (g_nodes (build_step G p))"
    using assms by (simp add: build_step_def Let_def incr_weight_nodes add_edge_distinct digraph_inv_def)
  have k: "distinct (map fst (g_edges (build_step G p)))"
    using assms by (auto simp: build_step_keys digraph_inv_def has_edge_def)
  have "\<forall>k \<in> set (map fst (g_edges G)). fst k \<in> set (g_nodes G) \<and> snd k \<in> set (g_nodes G)"
    using assms by (auto simp: digraph_inv_def list_all_iff)
  then have "\<forall>k \<in> set (map fst (g_edges (build_step G p))).
      fst k \<in> set (g_nodes (build_step G p)) \<and> snd k \<in> set (g_nodes (build_step G p))"
    unfolding build_step_keys build_step_nodes by auto
  then have "list_all (\<lambda>e. fst (fst e) \<in> set (g_nodes (build_step G p))
      \<and> snd (fst e) \<in> set (g_nodes (build_step G p))) (g_edges (build_step G p))"
    by (auto simp: list_all_iff)
  with d k show ?thesis
    by (simp add: digraph_inv_def)
qed

lemma foldl_build_inv: "digraph_inv G \<Longrightarrow> digraph_inv (foldl build_step G ps)"
  by (induction ps arbitrary: G) (auto simp: build_step_inv)

lemma foldl_build_keys:
  "set (map fst (g_edges (foldl build_step G ps))) = set (map fst (g_edges G)) \<union> set ps"
proof (induction ps arbitrary: G)
  case Nil
  then show ?case by simp
next
  case (Cons p ps)
  have "set (map fst (g_edges (build_step G p))) = insert p (set (map fst (g_edges G)))"
    unfolding build_step_keys by (cases p) (auto simp: has_edge_def)
  with Cons.IH [of "build_step G p"] show ?case
    by auto
qed

lemma foldl_build_nodes:
  "digraph_inv G \<Longrightarrow>
   set (g_nodes (foldl build_step G ps)) = set (g_nodes G) \<union> fst ` set ps \<union> snd ` set ps"
proof (induction ps arbitrary: G)
  case Nil
  then show ?case by simp
next
  case (Cons p ps)
  have "has_edge G (fst p) (snd p) \<Longrightarrow> fst p \<in> set (g_nodes G) \<and> snd p \<in> set (g_nodes G)"
    using Cons.prems by (auto simp: digraph_inv_def has_edge_def list_all_iff)
  then have "set (g_nodes (build_step G p)) = insert (fst p) (insert (snd p) (set (g_nodes G)))"
    by (auto simp: build_step_nodes)
  with Cons.IH [OF build_step_inv [OF Cons.prems]] show ?case
    by auto
qed

lemma empty_graph_inv: "digraph_inv empty_graph"
  by (simp add: digraph_inv_def empty_graph_def)

lemma build_speech_graph_inv: "digraph_inv (build_speech_graph ws)"
  by (simp add: build_speech_graph_def foldl_build_inv empty_graph_inv)

lemma build_speech_graph_keys:
  "set (map fst (g_edges (build_speech_graph ws))) = set (zip ws (tl ws))"
  by (simp add: build_speech_graph_def foldl_build_keys empty_graph_def del: set_map)

lemma zip_tl_ends: "2 \<le> length ws \<Longrightarrow> fst ` set (zip ws (tl ws)) \<union> snd ` set (zip ws (tl ws)) = set ws"
proof (induction ws)
  case Nil
  then show ?case by simp
next
  case (Cons a ws)
  show ?case
  proof (cases ws)
    case Nil
    with Cons.prems show ?thesis by simp
  next
    case (Cons b us)
    note ws = this
    show ?thesis
    proof (cases us)
      case Nil
      with ws show ?thesis by auto
    next
      case (Cons c vs)
      with ws Cons.IH have "fst ` set (zip ws (tl ws)) \<union> snd ` set (zip ws (tl ws)) = set ws"
        by simp
      with ws show ?thesis by auto
    qed
  qed
qed

lemma build_speech_graph_nodes:
  "set (g_nodes (build_speech_graph ws)) = (if 2 \<le> length ws then set ws else {})"
proof (cases "2 \<le> length ws")
  case True
  then show ?thesis
    using foldl_build_nodes [OF empty_graph_inv, of "zip ws (tl ws)"] zip_tl_ends [OF True]
    by (simp add: build_speech_graph_def empty_graph_def)
next
  case False
  then have z: "zip ws (tl ws) = []"
    by (cases ws) (auto simp: not_le less_Suc_eq_le)
  have "g_nodes (build_speech_graph ws) = []"
    unfolding build_speech_graph_def z by (simp add: empty_graph_def)
  with False show ?thesis
    by simp
qed

lemma number_of_nodes_build:
  "number_of_nodes (build_speech_graph ws) = (if 2 \<le> length ws then card (set ws) else 0)"
proof -
  have "distinct (g_nodes (build_speech_graph ws))"
    using build_speech_graph_inv [of ws] by (simp add: digraph_inv_def)
  then have "length (g_nodes (build_speech_graph ws)) = card (set (g_nodes (build_speech_graph ws)))"
    by (simp add: distinct_card)
  then show ?thesis
    by (simp add: number_of_nodes_def build_speech_graph_nodes)
qed

subsection \<open>Worked examples\<close>

text \<open>
  C6: for the words \<open>a b a b c\<close> the graph has the edges \<open>a \<rightarrow> b\<close> of weight 2,
  \<open>b \<rightarrow> a\<close> of weight 1 and \<open>b \<rightarrow> c\<close> of weight 1, and the metrics are 3 nodes,
  \<open>lsc = 2\<close>, \<open>lcc = 3\<close>, \<open>L1 = 0\<close> and one parallel edge.
\<close>

theorem C6_example_abab_c:
  "g_edges (build_speech_graph [''a'', ''b'', ''a'', ''b'', ''c'']) =
     [((''a'', ''b''), 2), ((''b'', ''a''), 1), ((''b'', ''c''), 1)]
   \<and> nodes (analyze_window [''a'', ''b'', ''a'', ''b'', ''c'']) = 3
   \<and> lsc (analyze_window [''a'', ''b'', ''a'', ''b'', ''c'']) = 2
   \<and> lcc (analyze_window [''a'', ''b'', ''a'', ''b'', ''c'']) = 3
   \<and> L1 (loops (analyze_window [''a'', ''b'', ''a'', ''b'', ''c''])) = 0
   \<and> parallel_edges (analyze_window [''a'', ''b'', ''a'', ''b'', ''c'']) = 1"
  by code_simp

text \<open>
  C8: when the tokenizer returns no word, \<open>analyze_full_transcript\<close> raises nothing and
  returns the result in which every count is 0, the lexical diversity is 0, and the
  window list, the aggregate and the visualization are empty.
\<close>

theorem C8_empty_transcript:
  "preprocess_text text = [] \<Longrightarrow>
   analyze_full_transcript A text =
     Inr \<lparr>full_metrics =
            \<lparr>nodes = 0, edges = 0, lsc = 0, lcc = 0, loops = \<lparr>L1 = 0, L2 = 0, L3 = 0\<rparr>,
             parallel_edges = 0, density = 0, avg_degree = 0\<rparr>,
          window_metrics = [],
          aggregated_metrics = [],
          visualization = \<lparr>viz_nodes = [], viz_links = []\<rparr>,
          word_count = 0,
          unique_words = 0,
          lexical_diversity = 0\<rparr>"
  by (simp add: analyze_full_transcript_def zero_result_def)

theorem C8_empty_transcript_witness:
  "preprocess_text ''  ?! 42 a '' = [] \<and>
   analyze_full_transcript default_analyzer ''  ?! 42 a '' =
     Inr \<lparr>full_metrics =
            \<lparr>nodes = 0, edges = 0, lsc = 0, lcc = 0, loops = \<lparr>L1 = 0, L2 = 0, L3 = 0\<rparr>,
             parallel_edges = 0, density = 0, avg_degree = 0\<rparr>,
          window_metrics = [],
          aggregated_metrics = [],
          visualization = \<lparr>viz_nodes = [], viz_links = []\<rparr>,
          word_count = 0,
          unique_words = 0,
          lexical_diversity = 0\<rparr>"
proof -
  have e: "preprocess_text ''  ?! 42 a '' = []"
    by code_simp
  show ?thesis
    using e C8_empty_transcript [OF e, of default_analyzer] by simp
qed

text \<open>
  C2: the number of nodes of the graph of a word list is the number of distinct words.
  It is so for every list but the list of one word: the loop of \<open>build_speech_graph\<close>
  adds nodes only as ends of edges, and one word has no edge, so the graph of the word
  \<open>hello\<close> has no node.
\<close>

theorem C2_single_word_no_node:
  "number_of_nodes (build_speech_graph [''hello'']) = 0 \<and> card (set [''hello'']) = 1"
  by code_simp

text \<open>
  C5: the lexical diversity is the quotient of \<open>unique_words\<close> by \<open>word_count\<close>. On
  the text \<open>hello\<close>, of one word, the graph has no node, so \<open>unique_words\<close> is 0 and the
  lexical diversity is 0, outside \<open>(0, 1]\<close>.
\<close>

theorem C5_single_word_diversity_zero:
  "map_sum id (\<lambda>r. (word_count r, unique_words r, lexical_diversity r))
     (analyze_full_transcript default_analyzer ''hello'') = Inr (1, 0, 0)"
  by code_simp

subsection \<open>Degrees\<close>

lemma count_by_source:
  assumes "distinct ns" and "\<forall>e \<in> set es. f e \<in> set ns"
  shows "sum_list (map (\<lambda>u. length (filter (\<lambda>e. f e = u) es)) ns) = length es"
  using assms(2)
proof (induction es)
  case Nil
  then show ?case by simp
next
  case (Cons e es)
  have one: "(\<Sum>u\<in>set ns. if f e = u then 1 else 0) = (1::nat)"
    using Cons.prems by simp
  have "sum_list (map (\<lambda>u. length (filter (\<lambda>e. f e = u) (e # es))) ns)
      = (\<Sum>u\<in>set ns. length (filter (\<lambda>e. f e = u) (e # es)))"
    using assms(1) by (simp add: sum_list_distinct_conv_sum_set)
  also have "\<dots> = (\<Sum>u\<in>set ns. (if f e = u then 1 else 0) + length (filter (\<lambda>e. f e = u) es))"
    by (intro sum.cong) auto
  also have "\<dots> = 1 + (\<Sum>u\<in>set ns. length (filter (\<lambda>e. f e = u) es))"
    by (simp add: sum.distrib one)
  also have "(\<Sum>u\<in>set ns. length (filter (\<lambda>e. f e = u) es))
      = sum_list (map (\<lambda>u. length (filter (\<lambda>e. f e = u) es)) ns)"
    using assms(1) by (simp add: sum_list_distinct_conv_sum_set)
  finally show ?case
    using Cons by simp
qed

lemma degree_sum:
  assumes "digraph_inv G"
  shows "sum_list (map (nx_degree G) (g_nodes G)) = 2 * number_of_edges G"
proof -
  have d: "distinct (g_nodes G)"
    and i: "\<forall>e \<in> set (g_edges G). snd (fst e) \<in> set (g_nodes G)"
    and o: "\<forall>e \<in> set (g_edges G). fst (fst e) \<in> set (g_nodes G)"
    using assms by (auto simp: digraph_inv_def list_all_iff)
  have "sum_list (map (nx_degree G) (g_nodes G))
      = sum_list (map (nx_in_degree G) (g_nodes G)) + sum_list (map (nx_out_degree G) (g_nodes G))"
    unfolding nx_degree_def by (simp add: sum_list_addf)
  also have "sum_list (map (nx_in_degree G) (g_nodes G)) = length (g_edges G)"
    unfolding nx_in_degree_def using count_by_source [OF d i] by simp
  also have "sum_list (map (nx_out_degree G) (g_nodes G)) = length (g_edges G)"
    unfolding nx_out_degree_def using count_by_source [OF d o] by simp
  finally show ?thesis
    by (simp add: number_of_edges_def)
qed

text \<open>
  C10: every edge adds one to the out-degree of its source and one to the in-degree of
  its target, a self-loop as well, so the degrees of the graph of a word list sum to
  twice the number of edges, and the reported \<open>avg_degree\<close> is the quotient
  \<^verbatim>\<open>2 * edges / nodes\<close> of Python when there is a node, and 0 when there is none.
\<close>

theorem C10_avg_degree:
  "sum_list (map (nx_degree (build_speech_graph ws)) (g_nodes (build_speech_graph ws)))
     = 2 * number_of_edges (build_speech_graph ws)
   \<and> avg_degree (analyze_window ws) =
       (if 0 < nodes (analyze_window ws)
        then py_truediv (2 * int (edges (analyze_window ws))) (int (nodes (analyze_window ws)))
        else 0)"
  using degree_sum [OF build_speech_graph_inv, of ws]
  by (simp add: analyze_window_def zero_metrics_def Let_def)

theorem C10_avg_degree_witness:
  "0 < nodes (analyze_window [''a'', ''b'', ''a'', ''b'', ''c''])
   \<and> avg_degree (analyze_window [''a'', ''b'', ''a'', ''b'', ''c'']) = py_truediv (2 * 3) 3
   \<and> py_truediv (2 * 3) 3 = 2"
proof -
  have n: "nodes (analyze_window [''a'', ''b'', ''a'', ''b'', ''c'']) = 3"
    and m: "edges (analyze_window [''a'', ''b'', ''a'', ''b'', ''c'']) = 3"
    by code_simp+
  have q: "py_truediv (2 * 3) 3 = 2"
    by code_simp
  show ?thesis
    using C10_avg_degree [of "[''a'', ''b'', ''a'', ''b'', ''c'']"] q unfolding n m by simp
qed

subsection \<open>Self-loops\<close>

lemma selfloops_card:
  assumes "digraph_inv G"
  shows "number_of_selfloops G = card {t. (t, t) \<in> set (map fst (g_edges G))}"
proof -
  let ?K = "set (map fst (g_edges G))"
  have d: "distinct (map fst (g_edges G))"
    using assms by (simp add: digraph_inv_def)
  have "number_of_selfloops G = length (filter (\<lambda>k. fst k = snd k) (map fst (g_edges G)))"
    by (simp add: number_of_selfloops_def filter_map comp_def)
  also have "\<dots> = card (set (filter (\<lambda>k. fst k = snd k) (map fst (g_edges G))))"
    using distinct_card [OF distinct_filter [OF d, of "\<lambda>k. fst k = snd k"]] by simp
  also have "set (filter (\<lambda>k. fst k = snd k) (map fst (g_edges G))) = (\<lambda>t. (t, t)) ` {t. (t, t) \<in> ?K}"
    by force
  also have "card ((\<lambda>t. (t, t)) ` {t. (t, t) \<in> ?K}) = card {t. (t, t) \<in> ?K}"
    by (intro card_image) (simp add: inj_on_def)
  finally show ?thesis .
qed

lemma set_zip_tl: "set (zip ws (tl ws)) = {(ws ! i, ws ! Suc i) | i. Suc i < length ws}"
  by (auto simp: set_zip nth_tl)

text \<open>
  C3, as the code has it: \<open>L1\<close> is the number of self-loop edges of the graph, that is
  the number of distinct words that occur twice in a row somewhere, however often. Five
  times the word \<open>x\<close> gives one node, one edge, \<open>lsc = 1\<close>, \<open>lcc = 1\<close> and \<open>L1 = 1\<close>.
\<close>

theorem C3_selfloops_distinct_words:
  "L1 (loops (analyze_window ws)) =
     card {t. \<exists>i. Suc i < length ws \<and> ws ! i = t \<and> ws ! Suc i = t}
   \<and> nodes (analyze_window [''x'', ''x'', ''x'', ''x'', ''x'']) = 1
   \<and> L1 (loops (analyze_window [''x'', ''x'', ''x'', ''x'', ''x''])) = 1
   \<and> lsc (analyze_window [''x'', ''x'', ''x'', ''x'', ''x'']) = 1
   \<and> lcc (analyze_window [''x'', ''x'', ''x'', ''x'', ''x'']) = 1
   \<and> edges (analyze_window [''x'', ''x'', ''x'', ''x'', ''x'']) = 1"
proof -
  have general: "L1 (loops (analyze_window ws)) =
      card {t. \<exists>i. Suc i < length ws \<and> ws ! i = t \<and> ws ! Suc i = t}"
  proof (cases "ws = []")
    case True
    then show ?thesis
      by (simp add: analyze_window_def zero_metrics_def)
  next
    case False
    have "{t. (t, t) \<in> set (zip ws (tl ws))} =
        {t. \<exists>i. Suc i < length ws \<and> ws ! i = t \<and> ws ! Suc i = t}"
      unfolding set_zip_tl by auto
    then show ?thesis
      using False selfloops_card [OF build_speech_graph_inv, of ws]
      by (simp add: analyze_window_def Let_def count_loops_def build_speech_graph_keys
          del: set_map)
  qed
  have example: "analyze_window [''x'', ''x'', ''x'', ''x'', ''x''] =
      \<lparr>nodes = 1, edges = 1, lsc = 1, lcc = 1, loops = \<lparr>L1 = 1, L2 = 0, L3 = 0\<rparr>,
       parallel_edges = 1, density = 0, avg_degree = 2\<rparr>"
    by code_simp
  show ?thesis
    using general by (simp add: example)
qed

text \<open>
  C3 as stated fails: five times the word \<open>x\<close> has four positions followed by an equal
  word, and \<open>L1\<close> is 1.
\<close>

theorem C3_counterexample:
  "L1 (loops (analyze_window [''x'', ''x'', ''x'', ''x'', ''x''])) = 1
   \<and> length (filter (\<lambda>i. [''x'', ''x'', ''x'', ''x'', ''x''] ! i = [''x'', ''x'', ''x'', ''x'', ''x''] ! Suc i) [0..<4]) = 4"
  by code_simp

subsection \<open>Texts shorter than the window\<close>

lemma short_sliding:
  "int (length (preprocess_text text)) < window_size A \<Longrightarrow>
   sliding_window_analysis A text = Inr [as_window (analyze_window (preprocess_text text))]"
  by (simp add: sliding_window_analysis_def Let_def)

lemma short_transcript:
  "preprocess_text text \<noteq> [] \<Longrightarrow> int (length (preprocess_text text)) < window_size A \<Longrightarrow>
   map_sum id window_metrics (analyze_full_transcript A text) = Inr []"
  by (simp add: analyze_full_transcript_def Let_def)

lemma text29_words: "preprocess_text text29 = replicate 29 ''ab''"
  unfolding text29_def by code_simp

lemma trunc: "metrics.truncate (as_window m) = m"
  by (simp add: as_window_def metrics.truncate_def metrics.extend_def)

text \<open>
  C1, as the code has it: on a text with fewer words than the window size,
  \<open>sliding_window_analysis\<close> returns one record, with the metrics of the whole word
  list, and \<open>analyze_full_transcript\<close>, which calls it only on at least \<open>window_size\<close>
  words, returns an empty window list.
\<close>

theorem C1_short_text_windows:
  assumes "int (length (preprocess_text text)) < window_size A"
  shows "(\<exists>w. sliding_window_analysis A text = Inr [w]
            \<and> metrics.truncate w = analyze_window (preprocess_text text))
       \<and> (preprocess_text text \<noteq> [] \<longrightarrow>
            map_sum id window_metrics (analyze_full_transcript A text) = Inr [])"
  using assms short_sliding [OF assms] short_transcript [of "text" A] by (simp add: trunc)

theorem C1_short_text_windows_witness:
  "int (length (preprocess_text text29)) < window_size default_analyzer
   \<and> (\<exists>w. sliding_window_analysis default_analyzer text29 = Inr [w]
          \<and> metrics.truncate w = analyze_window (preprocess_text text29))
   \<and> preprocess_text text29 \<noteq> []
   \<and> map_sum id window_metrics (analyze_full_transcript default_analyzer text29) = Inr []"
proof -
  have h: "int (length (preprocess_text text29)) < window_size default_analyzer"
    by (simp add: text29_words default_analyzer_def)
  have n: "preprocess_text text29 \<noteq> []"
    by (simp add: text29_words)
  show ?thesis
    using h n C1_short_text_windows [OF h] by blast
qed

text \<open>
  C1 as stated fails: on a text of 29 words the window list of
  \<open>analyze_full_transcript\<close> is empty.
\<close>

theorem C1_counterexample:
  "length (preprocess_text text29) = 29
   \<and> map_sum id window_metrics (analyze_full_transcript default_analyzer text29) = Inr []"
proof -
  have "int (length (preprocess_text text29)) < window_size default_analyzer"
    by (simp add: text29_words default_analyzer_def)
  moreover have "preprocess_text text29 \<noteq> []"
    by (simp add: text29_words)
  ultimately show ?thesis
    using short_transcript [of text29 default_analyzer] by (simp add: text29_words)
qed

subsection \<open>Components\<close>

lemma reach_unfold:
  "reach es vis =
     (case filter (\<lambda>e. fst e \<in> set vis \<and> snd e \<notin> set vis) es of
        [] \<Rightarrow> vis
      | e # _ \<Rightarrow> reach es (vis @ [snd e]))"
  by (rule reach.simps)

lemma closed_rtrancl:
  assumes "\<forall>e \<in> E. fst e \<in> S \<longrightarrow> snd e \<in> S"
  shows "E\<^sup>* `` S = S"
proof
  show "E\<^sup>* `` S \<subseteq> S"
  proof
    fix v
    assume "v \<in> E\<^sup>* `` S"
    then obtain u where u: "u \<in> S" and r: "(u, v) \<in> E\<^sup>*"
      by auto
    from r u show "v \<in> S"
    proof (induction rule: rtrancl_induct)
      case base
      then show ?case by simp
    next
      case (step y z)
      with assms show ?case by fastforce
    qed
  qed
  show "S \<subseteq> E\<^sup>* `` S"
    by auto
qed

lemma reach_set: "set (reach es vis) = (set es)\<^sup>* `` set vis"
proof (induction es vis rule: reach.induct)
  case (1 es vis)
  let ?F = "filter (\<lambda>e. fst e \<in> set vis \<and> snd e \<notin> set vis) es"
  show ?case
  proof (cases ?F)
    case Nil
    then have "\<forall>e \<in> set es. fst e \<in> set vis \<longrightarrow> snd e \<in> set vis"
      by (auto simp: filter_empty_conv)
    then have "(set es)\<^sup>* `` set vis = set vis"
      by (rule closed_rtrancl)
    moreover have "reach es vis = vis"
      using Nil by (subst reach_unfold) simp
    ultimately show ?thesis
      by simp
  next
    case (Cons e rest)
    then have "e \<in> set ?F"
      by simp
    then have e: "e \<in> set es" "fst e \<in> set vis"
      by auto
    then have "(fst e, snd e) \<in> (set es)\<^sup>*"
      by auto
    then have new: "snd e \<in> (set es)\<^sup>* `` set vis"
      using e(2) by blast
    have "reach es vis = reach es (vis @ [snd e])"
      using Cons by (subst reach_unfold) simp
    also have "set \<dots> = (set es)\<^sup>* `` set (vis @ [snd e])"
      using "1.IH" [OF Cons] .
    also have "\<dots> = (set es)\<^sup>* `` set vis \<union> (set es)\<^sup>* `` {snd e}"
      by auto
    also have "(set es)\<^sup>* `` {snd e} \<subseteq> (set es)\<^sup>* `` set vis"
      using new by (auto intro: rtrancl_trans)
    then have "(set es)\<^sup>* `` set vis \<union> (set es)\<^sup>* `` {snd e} = (set es)\<^sup>* `` set vis"
      by auto
    finally show ?thesis .
  qed
qed

lemma reach_distinct: "distinct vis \<Longrightarrow> distinct (reach es vis)"
proof (induction es vis rule: reach.induct)
  case (1 es vis)
  let ?F = "filter (\<lambda>e. fst e \<in> set vis \<and> snd e \<notin> set vis) es"
  show ?case
  proof (cases ?F)
    case Nil
    then have "reach es vis = vis"
      by (subst reach_unfold) simp
    with "1.prems" show ?thesis
      by simp
  next
    case (Cons e rest)
    then have "e \<in> set ?F"
      by simp
    then have "snd e \<notin> set vis"
      by auto
    with "1.prems" have "distinct (vis @ [snd e])"
      by simp
    then have "distinct (reach es (vis @ [snd e]))"
      by (rule "1.IH" [OF Cons])
    moreover have "reach es vis = reach es (vis @ [snd e])"
      using Cons by (subst reach_unfold) simp
    ultimately show ?thesis
      by simp
  qed
qed

lemma components_from: "C \<in> set (components cf ns) \<Longrightarrow> \<exists>u \<in> set ns. C = cf u"
  by (induction cf ns rule: components.induct) auto

lemma components_cover:
  "\<forall>v. v \<in> set (cf v) \<Longrightarrow> u \<in> set ns \<Longrightarrow> \<exists>C \<in> set (components cf ns). u \<in> set C"
proof (induction cf ns rule: components.induct)
  case (1 cf)
  then show ?case by simp
next
  case (2 cf v vs)
  show ?case
  proof (cases "u \<in> set (cf v)")
    case True
    then show ?thesis by simp
  next
    case False
    with "2.prems" have "u \<in> set (filter (\<lambda>w. w \<notin> set (cf v)) vs)"
      by auto
    from "2.IH" [OF "2.prems"(1) this] show ?thesis
      by auto
  qed
qed

lemma max_len_ge: "C \<in> set cs \<Longrightarrow> length C \<le> max_len cs"
  unfolding max_len_def by (induction cs) auto

lemma max_len_le: "(\<And>C. C \<in> set cs \<Longrightarrow> length C \<le> n) \<Longrightarrow> max_len cs \<le> n"
  unfolding max_len_def by (induction cs) auto

lemma max_len_attained: "cs \<noteq> [] \<Longrightarrow> \<exists>C \<in> set cs. length C = max_len cs"
  unfolding max_len_def
proof (induction cs)
  case Nil
  then show ?case by simp
next
  case (Cons C cs)
  show ?case
  proof (cases "cs = []")
    case True
    then show ?thesis by simp
  next
    case False
    with Cons.IH obtain D where D: "D \<in> set cs" "length D = foldr max (map length cs) 0"
      by auto
    show ?thesis
    proof (cases "length C \<le> length D")
      case True
      then have "foldr max (map length (C # cs)) 0 = length D"
        using D(2) by simp
      with D(1) show ?thesis
        by auto
    next
      case False
      then have "foldr max (map length (C # cs)) 0 = length C"
        using D(2) by simp
      then show ?thesis
        by auto
    qed
  qed
qed

lemma descendants_set: "set (descendants G u) = (set (map fst (g_edges G)))\<^sup>* `` {u}"
  by (simp add: descendants_def reach_set del: set_map)

lemma scc_of_set:
  "set (scc_of G u) =
     {v. (u, v) \<in> (set (map fst (g_edges G)))\<^sup>* \<and> (v, u) \<in> (set (map fst (g_edges G)))\<^sup>*}"
  by (auto simp: scc_of_def descendants_set simp del: set_map)

lemma scc_of_distinct: "distinct (scc_of G u)"
  by (simp add: scc_of_def descendants_def reach_distinct)

lemma scc_of_self: "u \<in> set (scc_of G u)"
  by (simp add: scc_of_set del: set_map)

lemma undirected_edges:
  "set (snd (to_undirected G)) = set (map fst (g_edges G)) \<union> (set (map fst (g_edges G)))\<inverse>"
  by (force simp: to_undirected_def)

text \<open>
  C7: in a graph with at least one node, the largest strongly connected component has
  at least one node and at most as many as the largest connected component of the
  undirected graph, which has at most as many as the graph. The graph is any graph that
  satisfies the invariant of the library, as the graph of a word list does
  (\<open>build_speech_graph_inv\<close>).
\<close>

theorem C7_component_sizes:
  assumes inv: "digraph_inv G" and pos: "0 < number_of_nodes G"
  shows "1 \<le> calculate_lsc G \<and> calculate_lsc G \<le> calculate_lcc G
       \<and> calculate_lcc G \<le> number_of_nodes G"
proof -
  let ?E = "set (map fst (g_edges G))"
  let ?U = "set (snd (to_undirected G))"
  let ?cc = "\<lambda>u. reach (snd (to_undirected G)) [u]"
  let ?S = "strongly_connected_components G"
  let ?C = "connected_components (to_undirected G)"
  have ne: "g_nodes G \<noteq> []"
    using pos by (auto simp: number_of_nodes_def)
  have EU: "?E \<subseteq> ?U"
    by (simp add: undirected_edges del: set_map)
  have ends: "?U \<subseteq> set (g_nodes G) \<times> set (g_nodes G)"
    using inv unfolding undirected_edges by (auto simp: digraph_inv_def list_all_iff)
  have cc_set: "set (?cc u) = ?U\<^sup>* `` {u}" for u
    by (simp add: reach_set)
  have cc_distinct: "distinct (?cc u)" for u
    by (simp add: reach_distinct)
  have cc_self: "u \<in> set (?cc u)" for u
    by (simp add: cc_set)
  have C_def: "?C = components ?cc (g_nodes G)"
    by (simp add: connected_components_def to_undirected_def)
  have S_def: "?S = components (scc_of G) (g_nodes G)"
    by (simp add: strongly_connected_components_def)
  have S_ne: "?S \<noteq> []" and C_ne: "?C \<noteq> []"
    using ne unfolding S_def C_def by (cases "g_nodes G"; simp)+
  have lsc: "calculate_lsc G = max_len ?S"
    using pos S_ne by (simp add: calculate_lsc_def)
  have lcc: "calculate_lcc G = max_len ?C"
    using pos C_ne by (simp add: calculate_lcc_def)
  \<comment> \<open>the largest strongly connected component has a node\<close>
  obtain u0 us where "g_nodes G = u0 # us"
    using ne by (cases "g_nodes G") auto
  then have "scc_of G u0 \<in> set ?S"
    by (simp add: S_def)
  then have "length (scc_of G u0) \<le> max_len ?S"
    by (rule max_len_ge)
  moreover have "1 \<le> length (scc_of G u0)"
    using scc_of_self [of u0 G] by (cases "scc_of G u0") auto
  ultimately have one: "1 \<le> calculate_lsc G"
    by (simp add: lsc)
  \<comment> \<open>it lies inside a connected component\<close>
  obtain S where S: "S \<in> set ?S" "length S = max_len ?S"
    using max_len_attained [OF S_ne] by auto
  then obtain u where u: "u \<in> set (g_nodes G)" "S = scc_of G u"
    unfolding S_def using components_from by fastforce
  obtain D where D: "D \<in> set ?C" "u \<in> set D"
    unfolding C_def using components_cover [of ?cc u "g_nodes G"] cc_self u(1) by blast
  then obtain r where r: "r \<in> set (g_nodes G)" "D = ?cc r"
    unfolding C_def using components_from by fastforce
  have ru: "(r, u) \<in> ?U\<^sup>*"
    using D(2) r(2) by (simp add: cc_set)
  have "set S \<subseteq> set D"
  proof
    fix v
    assume "v \<in> set S"
    then have "(u, v) \<in> ?E\<^sup>*"
      by (simp add: u(2) scc_of_set del: set_map)
    then have "(u, v) \<in> ?U\<^sup>*"
      using rtrancl_mono [OF EU] by blast
    with ru have "(r, v) \<in> ?U\<^sup>*"
      by (rule rtrancl_trans)
    then show "v \<in> set D"
      by (simp add: r(2) cc_set)
  qed
  then have "card (set S) \<le> card (set D)"
    by (intro card_mono) auto
  moreover have "card (set S) = length S"
    using scc_of_distinct [of G u] by (simp add: u(2) distinct_card)
  moreover have "card (set D) \<le> length D"
    by (rule card_length)
  moreover have "length D \<le> max_len ?C"
    using D(1) by (rule max_len_ge)
  ultimately have two: "calculate_lsc G \<le> calculate_lcc G"
    using S(2) by (simp add: lsc lcc)
  \<comment> \<open>a connected component is a set of nodes\<close>
  have "length D' \<le> number_of_nodes G" if "D' \<in> set ?C" for D'
  proof -
    from that obtain r' where r': "r' \<in> set (g_nodes G)" "D' = ?cc r'"
      unfolding C_def using components_from by fastforce
    have "set D' \<subseteq> set (g_nodes G)"
    proof
      fix v
      assume "v \<in> set D'"
      then have "(r', v) \<in> ?U\<^sup>*"
        by (simp add: r'(2) cc_set)
      then show "v \<in> set (g_nodes G)"
        using r'(1) ends by (induction rule: rtrancl_induct) auto
    qed
    then have "card (set D') \<le> card (set (g_nodes G))"
      by (intro card_mono) auto
    moreover have "card (set D') = length D'"
      using cc_distinct [of r'] by (simp add: r'(2) distinct_card)
    moreover have "card (set (g_nodes G)) \<le> length (g_nodes G)"
      by (rule card_length)
    ultimately show ?thesis
      by (simp add: number_of_nodes_def)
  qed
  then have three: "calculate_lcc G \<le> number_of_nodes G"
    unfolding lcc by (rule max_len_le)
  from one two three show ?thesis
    by simp
qed

theorem C7_component_sizes_witness:
  "digraph_inv (build_speech_graph [''a'', ''b'', ''a'', ''b'', ''c''])
   \<and> 0 < number_of_nodes (build_speech_graph [''a'', ''b'', ''a'', ''b'', ''c''])
   \<and> 1 \<le> calculate_lsc (build_speech_graph [''a'', ''b'', ''a'', ''b'', ''c''])
   \<and> calculate_lsc (build_speech_graph [''a'', ''b'', ''a'', ''b'', ''c''])
       \<le> calculate_lcc (build_speech_graph [''a'', ''b'', ''a'', ''b'', ''c''])
   \<and> calculate_lcc (build_speech_graph [''a'', ''b'', ''a'', ''b'', ''c''])
       \<le> number_of_nodes (build_speech_graph [''a'', ''b'', ''a'', ''b'', ''c''])"
proof -
  have i: "digraph_inv (build_speech_graph [''a'', ''b'', ''a'', ''b'', ''c''])"
    by code_simp
  have p: "0 < number_of_nodes (build_speech_graph [''a'', ''b'', ''a'', ''b'', ''c''])"
    by code_simp
  show ?thesis
    using i p C7_component_sizes [OF i p] by simp
qed

subsection \<open>Rounding to a double\<close>

text \<open>
  The rounding is monotone and leaves the natural numbers below \<open>2 ^ 53\<close> unchanged.
\<close>

lemma round_half_even_bounds: "\<lfloor>x\<rfloor> \<le> round_half_even x \<and> round_half_even x \<le> \<lfloor>x\<rfloor> + 1"
  by (simp add: round_half_even_def Let_def)

lemma round_half_even_of_int: "round_half_even (of_int k) = k"
  by (simp add: round_half_even_def)

lemma round_half_even_mono:
  assumes "x \<le> y"
  shows "round_half_even x \<le> round_half_even y"
proof (cases "\<lfloor>x\<rfloor> < \<lfloor>y\<rfloor>")
  case True
  then show ?thesis
    using round_half_even_bounds [of x] round_half_even_bounds [of y] by linarith
next
  case False
  then have f: "\<lfloor>x\<rfloor> = \<lfloor>y\<rfloor>"
    using floor_mono [OF assms] by linarith
  have "x - of_int \<lfloor>y\<rfloor> \<le> y - of_int \<lfloor>y\<rfloor>"
    using assms by simp
  then show ?thesis
    unfolding round_half_even_def Let_def f by auto
qed

lemma bitlen_rat_bounds:
  assumes "0 < a"
  shows "(2::rat) powi (bitlen a - 1) \<le> of_int a" and "of_int a < (2::rat) powi bitlen a"
proof -
  from bitlen_bounds [OF assms]
  have lo: "2 ^ nat (bitlen a - 1) \<le> a" and hi: "a < 2 ^ nat (bitlen a)"
    by auto
  have pos: "1 \<le> bitlen a"
    using assms bitlen_eq_zero_iff [of a] bitlen_nonneg [of a] by linarith
  have "(of_int (2 ^ nat (bitlen a - 1)) :: rat) \<le> of_int a"
    using lo by (simp only: of_int_le_iff)
  then show "(2::rat) powi (bitlen a - 1) \<le> of_int a"
    using pos by (simp add: power_int_def)
  have "(of_int a :: rat) < of_int (2 ^ nat (bitlen a))"
    using hi by (simp only: of_int_less_iff)
  then show "of_int a < (2::rat) powi bitlen a"
    using pos by (simp add: power_int_def)
qed

lemma float_exponent_bounds:
  assumes "0 < q"
  shows "2 powi float_exponent q \<le> q" and "q < 2 powi (float_exponent q + 1)"
proof -
  obtain a b where ab: "quotient_of q = (a, b)"
    by (cases "quotient_of q")
  have b: "0 < b"
    using ab by (rule quotient_of_denom_pos)
  have q: "q = of_int a / of_int b"
    using ab by (rule quotient_of_div)
  have a: "0 < a"
    using assms b unfolding q by (simp add: zero_less_divide_iff)
  let ?A = "bitlen a" and ?B = "bitlen b"
  note A = bitlen_rat_bounds [OF a] and B = bitlen_rat_bounds [OF b]
  have bpos: "(0::rat) < of_int b"
    using b by simp
  have apos: "(0::rat) \<le> of_int a"
    using a by simp
  have p1: "(0::rat) < 2 powi (?B - 1)" and p2: "(0::rat) < 2 powi (?A - 1)"
    by simp_all
  have "q < 2 powi ?A / 2 powi (?B - 1)"
    unfolding q using apos A(2) p1 B(1) by (rule frac_less)
  also have "\<dots> = 2 powi (?A - (?B - 1))"
    using power_int_diff [of "2::rat" ?A "?B - 1"] by simp
  also have "?A - (?B - 1) = ?A - ?B + 1"
    by simp
  finally have hi: "q < 2 powi (?A - ?B + 1)" .
  have "2 powi (?A - 1) / 2 powi ?B < q"
    unfolding q using p2 A(1) bpos B(2) by (rule frac_less2)
  moreover have "2 powi (?A - 1) / (2::rat) powi ?B = 2 powi ((?A - 1) - ?B)"
    using power_int_diff [of "2::rat" "?A - 1" ?B] by simp
  moreover have "(?A - 1) - ?B = ?A - ?B - 1"
    by simp
  ultimately have lo: "2 powi (?A - ?B - 1) < q"
    by simp
  have fe: "float_exponent q = (if 2 powi (?A - ?B) \<le> q then ?A - ?B else ?A - ?B - 1)"
    by (simp add: float_exponent_def ab Let_def)
  show "2 powi float_exponent q \<le> q"
    using lo by (simp add: fe less_imp_le)
  show "q < 2 powi (float_exponent q + 1)"
    using hi by (auto simp: fe not_le)
qed

lemma float_exponent_mono:
  assumes "0 < p" and "p \<le> q"
  shows "float_exponent p \<le> float_exponent q"
proof (rule ccontr)
  assume "\<not> float_exponent p \<le> float_exponent q"
  then have "float_exponent q + 1 \<le> float_exponent p"
    by simp
  then have "(2::rat) powi (float_exponent q + 1) \<le> 2 powi float_exponent p"
    by (intro power_int_increasing) auto
  also have "\<dots> \<le> p"
    using assms(1) by (rule float_exponent_bounds)
  also have "p \<le> q"
    by fact
  also have "q < 2 powi (float_exponent q + 1)"
    using assms by (intro float_exponent_bounds) simp
  finally show False
    by simp
qed

lemma float_ulp_pos: "0 < float_ulp q"
  by (simp add: float_ulp_def)

lemma round_double_pos:
  "0 < q \<Longrightarrow> round_double q = of_int (round_half_even (q / float_ulp q)) * float_ulp q"
  by (simp add: round_double_def)

lemma round_double_neg: "round_double (- q) = - round_double q"
  by (simp add: round_double_def)

lemma round_double_0: "round_double 0 = 0"
  by (simp add: round_double_def)

lemma pow53: "(2::rat) powi (e + 1) / 2 powi (e - 52) = of_int (2 ^ 53)"
proof -
  have "(2::rat) powi (e + 1) / 2 powi (e - 52) = 2 powi ((e + 1) - (e - 52))"
    using power_int_diff [of "2::rat" "e + 1" "e - 52"] by simp
  also have "\<dots> = 2 powi 53"
    by simp
  finally show ?thesis
    by simp
qed

lemma pow52: "(2::rat) powi e / 2 powi (e - 52) = of_int (2 ^ 52)"
proof -
  have "(2::rat) powi e / 2 powi (e - 52) = 2 powi (e - (e - 52))"
    using power_int_diff [of "2::rat" e "e - 52"] by simp
  also have "\<dots> = 2 powi 52"
    by simp
  finally show ?thesis
    by simp
qed

lemma round_double_upper:
  assumes "0 < q"
  shows "round_double q \<le> 2 powi (max (float_exponent q) (- 1022) + 1)"
proof -
  let ?e = "max (float_exponent q) (- 1022)"
  have u: "float_ulp q = 2 powi (?e - 52)"
    by (simp add: float_ulp_def)
  have "q < 2 powi (float_exponent q + 1)"
    using assms by (rule float_exponent_bounds)
  also have "\<dots> \<le> 2 powi (?e + 1)"
    by (intro power_int_increasing) auto
  finally have "q / float_ulp q \<le> 2 powi (?e + 1) / float_ulp q"
    using float_ulp_pos [of q] by (simp add: divide_right_mono)
  also have "\<dots> = of_int (2 ^ 53)"
    unfolding u by (rule pow53)
  finally have "round_half_even (q / float_ulp q) \<le> round_half_even (of_int (2 ^ 53))"
    by (rule round_half_even_mono)
  then have "round_half_even (q / float_ulp q) \<le> 2 ^ 53"
    by (simp only: round_half_even_of_int)
  then have "(of_int (round_half_even (q / float_ulp q)) :: rat) \<le> of_int (2 ^ 53)"
    by (simp only: of_int_le_iff)
  then have "round_double q \<le> of_int (2 ^ 53) * float_ulp q"
    using float_ulp_pos [of q] by (simp add: round_double_pos [OF assms] mult_right_mono)
  also have "of_int (2 ^ 53) * float_ulp q = 2 powi (?e + 1)"
    using pow53 [of ?e] float_ulp_pos [of q] unfolding u by (simp add: field_simps)
  finally show ?thesis .
qed

lemma round_double_lower:
  assumes "0 < q" and "- 1022 \<le> float_exponent q"
  shows "2 powi float_exponent q \<le> round_double q"
proof -
  let ?e = "float_exponent q"
  have u: "float_ulp q = 2 powi (?e - 52)"
    using assms(2) by (simp add: float_ulp_def max_def)
  have "2 powi ?e \<le> q"
    using assms(1) by (rule float_exponent_bounds)
  then have "2 powi ?e / float_ulp q \<le> q / float_ulp q"
    using float_ulp_pos [of q] by (simp add: divide_right_mono)
  moreover have "2 powi ?e / float_ulp q = of_int (2 ^ 52)"
    unfolding u by (rule pow52)
  ultimately have "round_half_even (of_int (2 ^ 52)) \<le> round_half_even (q / float_ulp q)"
    by (intro round_half_even_mono) simp
  then have "2 ^ 52 \<le> round_half_even (q / float_ulp q)"
    by (simp only: round_half_even_of_int)
  then have "(of_int (2 ^ 52) :: rat) \<le> of_int (round_half_even (q / float_ulp q))"
    by (simp only: of_int_le_iff)
  then have "of_int (2 ^ 52) * float_ulp q \<le> round_double q"
    using float_ulp_pos [of q] by (simp add: round_double_pos [OF assms(1)] mult_right_mono)
  moreover have "of_int (2 ^ 52) * float_ulp q = 2 powi ?e"
    using pow52 [of ?e] float_ulp_pos [of q] unfolding u by (simp add: field_simps)
  ultimately show ?thesis
    by simp
qed

lemma round_double_nonneg:
  assumes "0 < q"
  shows "0 \<le> round_double q"
proof -
  have "0 \<le> q / float_ulp q"
    using assms float_ulp_pos [of q] by simp
  then have "round_half_even (of_int 0) \<le> round_half_even (q / float_ulp q)"
    by (intro round_half_even_mono) simp
  then have "0 \<le> round_half_even (q / float_ulp q)"
    by (simp only: round_half_even_of_int)
  then show ?thesis
    using float_ulp_pos [of q] by (simp add: round_double_pos [OF assms])
qed

lemma round_double_mono_pos:
  assumes "0 < p" and "p \<le> q"
  shows "round_double p \<le> round_double q"
proof -
  have q: "0 < q"
    using assms by simp
  let ?ep = "max (float_exponent p) (- 1022)" and ?eq = "max (float_exponent q) (- 1022)"
  have le: "?ep \<le> ?eq"
    using float_exponent_mono [OF assms] by simp
  show ?thesis
  proof (cases "?ep = ?eq")
    case True
    then have u: "float_ulp p = float_ulp q"
      by (simp add: float_ulp_def)
    have "p / float_ulp q \<le> q / float_ulp q"
      using assms(2) float_ulp_pos [of q] by (simp add: divide_right_mono)
    then have "round_half_even (p / float_ulp q) \<le> round_half_even (q / float_ulp q)"
      by (rule round_half_even_mono)
    then have "(of_int (round_half_even (p / float_ulp q)) :: rat)
        \<le> of_int (round_half_even (q / float_ulp q))"
      by (simp only: of_int_le_iff)
    then show ?thesis
      using float_ulp_pos [of q]
      by (simp add: round_double_pos [OF assms(1)] round_double_pos [OF q] u mult_right_mono)
  next
    case False
    with le have lt: "?ep + 1 \<le> ?eq"
      by simp
    then have big: "- 1022 \<le> float_exponent q" and eq: "?eq = float_exponent q"
      by (auto simp: max_def split: if_splits)
    have "round_double p \<le> 2 powi (?ep + 1)"
      using assms(1) by (rule round_double_upper)
    also have "\<dots> \<le> 2 powi ?eq"
      using lt by (intro power_int_increasing) auto
    also have "\<dots> = 2 powi float_exponent q"
      by (simp only: eq)
    also have "\<dots> \<le> round_double q"
      using q big by (rule round_double_lower)
    finally show ?thesis .
  qed
qed

lemma round_double_mono:
  assumes "x \<le> y"
  shows "round_double x \<le> round_double y"
proof -
  consider "0 < x" | "x \<le> 0" "0 \<le> y" | "y < 0"
    using assms by linarith
  then show ?thesis
  proof cases
    case 1
    then show ?thesis
      using assms by (rule round_double_mono_pos)
  next
    case 2
    have "round_double x \<le> 0"
    proof (cases "x = 0")
      case True
      then show ?thesis by (simp add: round_double_0)
    next
      case False
      with 2 have "0 < - x"
        by simp
      then have "0 \<le> round_double (- x)"
        by (rule round_double_nonneg)
      then show ?thesis
        by (simp add: round_double_neg)
    qed
    moreover have "0 \<le> round_double y"
    proof (cases "y = 0")
      case True
      then show ?thesis by (simp add: round_double_0)
    next
      case False
      with 2 have "0 < y"
        by simp
      then show ?thesis
        by (rule round_double_nonneg)
    qed
    ultimately show ?thesis
      by simp
  next
    case 3
    then have "0 < - y" and "- y \<le> - x"
      using assms by simp_all
    then have "round_double (- y) \<le> round_double (- x)"
      by (rule round_double_mono_pos)
    then show ?thesis
      by (simp add: round_double_neg)
  qed
qed

lemma round_double_of_nat:
  assumes "k < 2 ^ 53"
  shows "round_double (of_nat k) = of_nat k"
proof (cases "k = 0")
  case True
  then show ?thesis
    by (simp add: round_double_0)
next
  case False
  let ?q = "of_nat k :: rat"
  let ?e = "float_exponent ?q"
  have q: "0 < ?q"
    using False by simp
  have hi: "?q < 2 powi (?e + 1)" and lo: "2 powi ?e \<le> ?q"
    using float_exponent_bounds [OF q] by auto
  have "(1::rat) \<le> ?q"
    using False by (simp add: Suc_le_eq)
  with hi have "(2::rat) powi 0 < 2 powi (?e + 1)"
    by simp
  have e0: "0 \<le> ?e"
  proof (rule ccontr)
    assume "\<not> 0 \<le> ?e"
    then have "?e + 1 \<le> 0"
      by simp
    then have "(2::rat) powi (?e + 1) \<le> 2 powi 0"
      by (intro power_int_increasing) auto
    with \<open>(2::rat) powi 0 < 2 powi (?e + 1)\<close> show False
      by simp
  qed
  have "of_nat k < (of_nat (2 ^ 53) :: rat)"
    using assms by (simp only: of_nat_less_iff)
  then have "?q < 2 ^ 53"
    by (simp only: of_nat_power of_nat_numeral)
  then have "?q < 2 powi 53"
    by (simp only: power_int_numeral)
  with lo have lt: "(2::rat) powi ?e < 2 powi 53"
    by (rule le_less_trans)
  have e52: "?e \<le> 52"
  proof (rule ccontr)
    assume "\<not> ?e \<le> 52"
    then have "53 \<le> ?e"
      by simp
    then have "(2::rat) powi 53 \<le> 2 powi ?e"
      by (intro power_int_increasing) auto
    with lt show False
      by simp
  qed
  have u: "float_ulp ?q = 2 powi (?e - 52)"
    using e0 by (simp add: float_ulp_def max_def)
  have "(2::rat) powi ((?e - 52) + (52 - ?e)) = 2 powi (?e - 52) * 2 powi (52 - ?e)"
    by (rule power_int_add) simp
  then have inv: "(2::rat) powi (?e - 52) * 2 powi (52 - ?e) = 1"
    by simp
  have pw: "(2::rat) powi (52 - ?e) = of_int (2 ^ nat (52 - ?e))"
    using e52 by (simp add: power_int_def)
  have "?q / float_ulp ?q = ?q * 2 powi (52 - ?e)"
    unfolding u using inv by (simp add: field_simps)
  also have "\<dots> = of_int (int k * 2 ^ nat (52 - ?e))"
    by (simp add: pw)
  finally have "round_half_even (?q / float_ulp ?q) = int k * 2 ^ nat (52 - ?e)"
    by (simp only: round_half_even_of_int)
  then have "round_double ?q = of_int (int k * 2 ^ nat (52 - ?e)) * float_ulp ?q"
    by (simp add: round_double_pos [OF q])
  also have "\<dots> = ?q * (2 powi (52 - ?e) * 2 powi (?e - 52))"
    unfolding u by (simp add: pw)
  also have "\<dots> = ?q"
    using inv by (simp add: mult.commute)
  finally show ?thesis .
qed

subsection \<open>Density\<close>

lemma number_of_edges_card:
  assumes "digraph_inv G"
  shows "number_of_edges G = card (set (map fst (g_edges G)))"
proof -
  have "distinct (map fst (g_edges G))"
    using assms by (simp add: digraph_inv_def)
  then have "card (set (map fst (g_edges G))) = length (map fst (g_edges G))"
    by (rule distinct_card)
  then show ?thesis
    by (simp add: number_of_edges_def)
qed

lemma number_of_nodes_card:
  assumes "digraph_inv G"
  shows "number_of_nodes G = card (set (g_nodes G))"
  using assms by (simp add: digraph_inv_def number_of_nodes_def distinct_card)

lemma edges_le_square:
  assumes "digraph_inv G"
  shows "number_of_edges G \<le> number_of_nodes G * number_of_nodes G"
proof -
  let ?N = "set (g_nodes G)"
  have "set (map fst (g_edges G)) \<subseteq> ?N \<times> ?N"
    using assms by (auto simp: digraph_inv_def list_all_iff)
  then have "card (set (map fst (g_edges G))) \<le> card (?N \<times> ?N)"
    by (intro card_mono) auto
  then show ?thesis
    by (simp add: number_of_edges_card [OF assms] number_of_nodes_card [OF assms]
        card_cartesian_product del: set_map)
qed

lemma card_off_diagonal:
  assumes "finite N"
  shows "card {p \<in> N \<times> N. fst p \<noteq> snd p} = card N * (card N - 1)"
proof -
  let ?D = "{p \<in> N \<times> N. fst p = snd p}" and ?O = "{p \<in> N \<times> N. fst p \<noteq> snd p}"
  have fin: "finite (N \<times> N)"
    using assms by simp
  have "?D \<union> ?O = N \<times> N"
    by blast
  moreover have "?D \<inter> ?O = {}"
    by blast
  moreover have "finite ?D" and "finite ?O"
    using fin by simp_all
  ultimately have "card (N \<times> N) = card ?D + card ?O"
    using card_Un_disjoint [of ?D ?O] by simp
  moreover have "?D = (\<lambda>u. (u, u)) ` N"
    by (auto simp: image_iff)
  moreover have "card ((\<lambda>u. (u, u)) ` N) = card N"
    by (intro card_image) (simp add: inj_on_def)
  ultimately have "card ?O = card N * card N - card N"
    by (simp add: card_cartesian_product)
  then show ?thesis
    by (simp add: diff_mult_distrib2)
qed

lemma edges_le_off_diagonal:
  assumes "digraph_inv G" and "number_of_selfloops G = 0"
  shows "number_of_edges G \<le> number_of_nodes G * (number_of_nodes G - 1)"
proof -
  let ?N = "set (g_nodes G)"
  have "\<forall>e \<in> set (g_edges G). fst (fst e) \<noteq> snd (fst e)"
    using assms(2) by (auto simp: number_of_selfloops_def filter_empty_conv)
  then have "set (map fst (g_edges G)) \<subseteq> {p \<in> ?N \<times> ?N. fst p \<noteq> snd p}"
    using assms(1) by (auto simp: digraph_inv_def list_all_iff)
  then have "card (set (map fst (g_edges G))) \<le> card {p \<in> ?N \<times> ?N. fst p \<noteq> snd p}"
    by (intro card_mono) auto
  then show ?thesis
    by (simp add: number_of_edges_card [OF assms(1)] number_of_nodes_card [OF assms(1)]
        card_off_diagonal del: set_map)
qed

lemma int_pred_product: "1 < n \<Longrightarrow> int n * (int n - 1) = int (n * (n - 1))"
  by (simp add: of_nat_diff)

lemma nx_density_zero:
  "number_of_edges G = 0 \<or> number_of_nodes G \<le> 1 \<Longrightarrow> nx_density G = 0"
  unfolding nx_density_def Let_def by (simp only: if_True)

lemma nx_density_quotient:
  assumes "\<not> (number_of_edges G = 0 \<or> number_of_nodes G \<le> 1)"
  shows "nx_density G =
    round_double (of_nat (number_of_edges G)
      / of_nat (number_of_nodes G * (number_of_nodes G - 1)))"
proof -
  have n: "1 < number_of_nodes G"
    using assms by simp
  have "nx_density G =
      py_truediv (int (number_of_edges G)) (int (number_of_nodes G) * (int (number_of_nodes G) - 1))"
    unfolding nx_density_def Let_def using assms by (simp only: if_False)
  also have "\<dots> = round_double (of_int (int (number_of_edges G))
      / of_int (int (number_of_nodes G * (number_of_nodes G - 1))))"
    unfolding py_truediv_def by (simp only: int_pred_product [OF n])
  finally show ?thesis
    by (simp only: of_int_of_nat_eq)
qed

lemma quotient_le:
  fixes m d :: nat
  assumes "m \<le> c * d" and "0 < d"
  shows "(of_nat m :: rat) / of_nat d \<le> of_nat c"
proof -
  have "(of_nat m :: rat) \<le> of_nat (c * d)"
    using assms(1) by (simp only: of_nat_le_iff)
  then have "(of_nat m :: rat) \<le> of_nat c * of_nat d"
    by (simp only: of_nat_mult)
  moreover have "(0::rat) < of_nat d"
    using assms(2) by simp
  ultimately show ?thesis
    by (simp only: pos_divide_le_eq)
qed

lemma nx_density_nonneg: "0 \<le> nx_density G"
proof (cases "number_of_edges G = 0 \<or> number_of_nodes G \<le> 1")
  case True
  then show ?thesis
    by (simp only: nx_density_zero order_refl)
next
  case False
  have "(0::rat) \<le> of_nat (number_of_edges G)
      / of_nat (number_of_nodes G * (number_of_nodes G - 1))"
    by (rule divide_nonneg_nonneg) simp_all
  then have "round_double 0
      \<le> round_double (of_nat (number_of_edges G)
          / of_nat (number_of_nodes G * (number_of_nodes G - 1)))"
    by (rule round_double_mono)
  then show ?thesis
    by (simp only: nx_density_quotient [OF False] round_double_0)
qed

lemma round_double_1: "round_double 1 = 1"
  using round_double_of_nat [of 1] by simp

lemma round_double_2: "round_double 2 = 2"
  using round_double_of_nat [of 2] by simp

lemma nx_density_le_2:
  assumes "digraph_inv G"
  shows "nx_density G \<le> 2"
proof (cases "number_of_edges G = 0 \<or> number_of_nodes G \<le> 1")
  case True
  then show ?thesis
    by (simp add: nx_density_zero)
next
  case False
  let ?n = "number_of_nodes G" and ?m = "number_of_edges G"
  from False have n: "1 < ?n"
    by simp
  then have "?n \<le> 2 * (?n - 1)"
    by simp
  then have "?n * ?n \<le> ?n * (2 * (?n - 1))"
    by (rule mult_le_mono2)
  also have "\<dots> = 2 * (?n * (?n - 1))"
    by (simp only: mult.left_commute)
  finally have "?m \<le> 2 * (?n * (?n - 1))"
    using edges_le_square [OF assms] by (rule order_trans [rotated])
  moreover have "0 < ?n * (?n - 1)"
    using n by simp
  ultimately have "(of_nat ?m :: rat) / of_nat (?n * (?n - 1)) \<le> of_nat 2"
    by (rule quotient_le)
  then have "round_double (of_nat ?m / of_nat (?n * (?n - 1))) \<le> round_double (of_nat 2)"
    by (rule round_double_mono)
  then show ?thesis
    by (simp add: nx_density_quotient [OF False] round_double_2)
qed

lemma nx_density_le_1:
  assumes "digraph_inv G" and "number_of_selfloops G = 0"
  shows "nx_density G \<le> 1"
proof (cases "number_of_edges G = 0 \<or> number_of_nodes G \<le> 1")
  case True
  then show ?thesis
    by (simp add: nx_density_zero)
next
  case False
  let ?n = "number_of_nodes G" and ?m = "number_of_edges G"
  from False have n: "1 < ?n"
    by simp
  have "?m \<le> 1 * (?n * (?n - 1))"
    using edges_le_off_diagonal [OF assms] by simp
  moreover have "0 < ?n * (?n - 1)"
    using n by simp
  ultimately have "(of_nat ?m :: rat) / of_nat (?n * (?n - 1)) \<le> of_nat 1"
    by (rule quotient_le)
  then have "round_double (of_nat ?m / of_nat (?n * (?n - 1))) \<le> round_double (of_nat 1)"
    by (rule round_double_mono)
  then show ?thesis
    by (simp add: nx_density_quotient [OF False] round_double_1)
qed

lemma distinct_adj_no_pair: "distinct_adj ws \<Longrightarrow> (t, t) \<notin> set (zip ws (tl ws))"
proof (induction ws)
  case Nil
  then show ?case by simp
next
  case (Cons a ws)
  then show ?case
    by (cases ws) auto
qed

lemma distinct_adj_no_selfloop:
  assumes "distinct_adj ws"
  shows "number_of_selfloops (build_speech_graph ws) = 0"
proof -
  have "fst (fst e) \<noteq> snd (fst e)" if "e \<in> set (g_edges (build_speech_graph ws))" for e
  proof
    assume eq: "fst (fst e) = snd (fst e)"
    have "fst e \<in> set (map fst (g_edges (build_speech_graph ws)))"
      using that by simp
    then have "fst e \<in> set (zip ws (tl ws))"
      by (simp only: build_speech_graph_keys)
    moreover have "fst e = (fst (fst e), fst (fst e))"
      using eq by (simp add: prod_eq_iff)
    ultimately show False
      using distinct_adj_no_pair [OF assms, of "fst (fst e)"] by simp
  qed
  then show ?thesis
    by (simp add: number_of_selfloops_def filter_empty_conv)
qed

text \<open>
  C4, as the code has it: the density of the graph of a word list is at least 0 and at
  most 2, it is 0 when the graph has fewer than two nodes, and it is at most 1 when no
  word is followed by itself. \<^verbatim>\<open>nx.density\<close> divides the number of edges, the
  self-loops among them, by \<open>n * (n - 1)\<close>, the number of edges a graph without
  self-loops can have.
\<close>

theorem C4_density_bounds:
  "0 \<le> density (analyze_window ws)
   \<and> density (analyze_window ws) \<le> 2
   \<and> (nodes (analyze_window ws) < 2 \<longrightarrow> density (analyze_window ws) = 0)
   \<and> (distinct_adj ws \<longrightarrow> density (analyze_window ws) \<le> 1)"
proof (cases "ws = []")
  case True
  then show ?thesis
    by (simp add: analyze_window_def zero_metrics_def)
next
  case False
  let ?G = "build_speech_graph ws"
  have d: "density (analyze_window ws) = (if 0 < number_of_nodes ?G then nx_density ?G else 0)"
    and n: "nodes (analyze_window ws) = number_of_nodes ?G"
    using False by (simp_all add: analyze_window_def Let_def)
  have z: "number_of_nodes ?G < 2 \<Longrightarrow> nx_density ?G = 0"
    by (rule nx_density_zero) simp
  have o: "distinct_adj ws \<Longrightarrow> nx_density ?G \<le> 1"
    by (rule nx_density_le_1 [OF build_speech_graph_inv distinct_adj_no_selfloop])
  have t: "nx_density ?G \<le> 2"
    by (rule nx_density_le_2 [OF build_speech_graph_inv])
  have p: "0 \<le> nx_density ?G"
    by (rule nx_density_nonneg)
  show ?thesis
    unfolding d n using z o t p by auto
qed

theorem C4_density_bounds_witness:
  "nodes (analyze_window [''x'', ''x'']) < 2
   \<and> density (analyze_window [''x'', ''x'']) = 0
   \<and> distinct_adj [''a'', ''b'', ''a'', ''b'', ''c'']
   \<and> 0 \<le> density (analyze_window [''a'', ''b'', ''a'', ''b'', ''c''])
   \<and> density (analyze_window [''a'', ''b'', ''a'', ''b'', ''c'']) \<le> 1"
proof -
  have n: "nodes (analyze_window [''x'', ''x'']) < 2"
    by code_simp
  have a: "distinct_adj [''a'', ''b'', ''a'', ''b'', ''c'']"
    by simp
  have "density (analyze_window [''x'', ''x'']) = 0"
    using n C4_density_bounds [of "[''x'', ''x'']"] by blast
  moreover have "0 \<le> density (analyze_window [''a'', ''b'', ''a'', ''b'', ''c''])
      \<and> density (analyze_window [''a'', ''b'', ''a'', ''b'', ''c'']) \<le> 1"
    using a C4_density_bounds [of "[''a'', ''b'', ''a'', ''b'', ''c'']"] by blast
  ultimately show ?thesis
    using n a by blast
qed

text \<open>
  C4 as stated fails: the words \<open>a a b a\<close> give two nodes and the three edges
  \<open>a \<rightarrow> a\<close>, \<open>a \<rightarrow> b\<close> and \<open>b \<rightarrow> a\<close>, and the density is \<open>3 / 2\<close>.
\<close>

theorem C4_counterexample:
  "nodes (analyze_window [''a'', ''a'', ''b'', ''a'']) = 2
   \<and> density (analyze_window [''a'', ''a'', ''b'', ''a'']) = 3 / 2
   \<and> \<not> density (analyze_window [''a'', ''a'', ''b'', ''a'']) \<le> 1"
proof -
  have "analyze_window [''a'', ''a'', ''b'', ''a''] =
      \<lparr>nodes = 2, edges = 3, lsc = 2, lcc = 2, loops = \<lparr>L1 = 1, L2 = 1, L3 = 0\<rparr>,
       parallel_edges = 0, density = 3 / 2, avg_degree = 3\<rparr>"
    by code_simp
  then show ?thesis
    by simp
qed

end
